theory Spec2Isabelle
  imports Main
begin

section \<open>Lazy values of lazycpp.hpp\<close>

text \<open>
  The header defines an abstract class \<open>LazyConcept<T>\<close>, two implementations
  (\<open>NotLazy<T>\<close> and \<open>VariantLazy<T>\<close>) and the handle \<open>SharedLazy<T>\<close>.

  Three type parameters are used throughout: \<open>'a\<close> is the value type \<open>T\<close>, \<open>'w\<close> is
  the environment a producer captured by reference (the \<open>counter\<close> of the test suite),
  and \<open>'e\<close> is the type of the exceptions a producer may throw.
\<close>

subsection \<open>Data\<close>

text \<open>
  \<open>evaluator_type = std::function<T()>\<close>. Calling it may change the environment and
  either returns a value (\<open>Inr\<close>) or throws (\<open>Inl\<close>); the environment it leaves behind is
  returned in both cases, since the effects a producer had before it threw stay.
  The environment is what the producer reaches besides the lazy object it is stored in:
  a producer that calls back into its own lazy object is not covered.
\<close>

type_synonym ('a, 'w, 'e) evaluator_type = "'w \<Rightarrow> ('e + 'a) \<times> 'w"

text \<open>\<open>std::variant<value_type, evaluator_type>\<close>, the storage of \<open>VariantLazy\<close>.\<close>

datatype ('a, 'w, 'e) variant =
    Value 'a
  | Evaluator "('a, 'w, 'e) evaluator_type"

text \<open>\<open>std::holds_alternative<value_type>(storage)\<close>.\<close>

fun holds_alternative_value :: "('a, 'w, 'e) variant \<Rightarrow> bool" where
  "holds_alternative_value (Value v) = True"
| "holds_alternative_value (Evaluator f) = False"

text \<open>
  An object behind a \<open>LazyConcept<T>\<close> reference is of one of the two derived classes;
  each has the single member \<open>storage\<close>. Virtual dispatch is the match on the
  constructor.
\<close>

datatype ('a, 'w, 'e) LazyConcept =
    NotLazy 'a
  | VariantLazy "('a, 'w, 'e) variant"

text \<open>The two constructors: both move their argument into \<open>storage\<close> and do nothing else.\<close>

definition NotLazy_init :: "'a \<Rightarrow> ('a, 'w, 'e) LazyConcept" where
  "NotLazy_init t = NotLazy t"

definition VariantLazy_init :: "('a, 'w, 'e) evaluator_type \<Rightarrow> ('a, 'w, 'e) LazyConcept" where
  "VariantLazy_init evaluator = VariantLazy (Evaluator evaluator)"

subsection \<open>The virtual member functions\<close>

fun isEvaluated :: "('a, 'w, 'e) LazyConcept \<Rightarrow> bool" where
  "isEvaluated (NotLazy storage) = True"
| "isEvaluated (VariantLazy storage) = holds_alternative_value storage"

text \<open>
  \<open>do_deref\<close> returns what the caller receives (the value read through the returned
  reference, or the exception), the object afterwards and the environment afterwards.
  A later write of the caller through the returned non-\<open>const\<close> reference is not part of
  the call and is not modelled.

  In \<open>VariantLazy::do_deref\<close> the test \<open>!isEvaluated()\<close> is the match on the alternative
  held. The statement \<open>storage = std::get<evaluator_type>(storage)()\<close> calls the producer
  before it assigns: when the call throws, the assignment is not reached and \<open>storage\<close>
  keeps the producer.
\<close>

fun do_deref ::
  "('a, 'w, 'e) LazyConcept \<Rightarrow> 'w \<Rightarrow> ('e + 'a) \<times> ('a, 'w, 'e) LazyConcept \<times> 'w" where
  "do_deref (NotLazy storage) w = (Inr storage, NotLazy storage, w)"
| "do_deref (VariantLazy (Evaluator f)) w =
     (case f w of
        (Inl e, w') \<Rightarrow> (Inl e, VariantLazy (Evaluator f), w')
      | (Inr v, w') \<Rightarrow> (Inr v, VariantLazy (Value v), w'))"
| "do_deref (VariantLazy (Value v)) w = (Inr v, VariantLazy (Value v), w)"

text \<open>
  The \<open>const\<close> overload has the same body in both classes (\<open>storage\<close> is \<open>mutable\<close> in
  \<open>VariantLazy\<close>).
\<close>

fun do_deref_const ::
  "('a, 'w, 'e) LazyConcept \<Rightarrow> 'w \<Rightarrow> ('e + 'a) \<times> ('a, 'w, 'e) LazyConcept \<times> 'w" where
  "do_deref_const (NotLazy storage) w = (Inr storage, NotLazy storage, w)"
| "do_deref_const (VariantLazy (Evaluator f)) w =
     (case f w of
        (Inl e, w') \<Rightarrow> (Inl e, VariantLazy (Evaluator f), w')
      | (Inr v, w') \<Rightarrow> (Inr v, VariantLazy (Value v), w'))"
| "do_deref_const (VariantLazy (Value v)) w = (Inr v, VariantLazy (Value v), w)"

text \<open>
  \<open>do_reassign(value_type&)\<close> and \<open>do_reassign(value_type&&)\<close>: \<open>storage = value\<close>. For
  the variant this selects the \<open>value_type\<close> alternative.
\<close>

fun do_reassign_lvalue :: "('a, 'w, 'e) LazyConcept \<Rightarrow> 'a \<Rightarrow> ('a, 'w, 'e) LazyConcept" where
  "do_reassign_lvalue (NotLazy storage) val = NotLazy val"
| "do_reassign_lvalue (VariantLazy storage) val = VariantLazy (Value val)"

fun do_reassign_rvalue :: "('a, 'w, 'e) LazyConcept \<Rightarrow> 'a \<Rightarrow> ('a, 'w, 'e) LazyConcept" where
  "do_reassign_rvalue (NotLazy storage) val = NotLazy val"
| "do_reassign_rvalue (VariantLazy storage) val = VariantLazy (Value val)"

subsection \<open>The public interface of \<open>LazyConcept\<close>\<close>

text \<open>
  A call of the public interface, and what it returns. \<open>operator=(value_type&& other)\<close>
  passes the named parameter \<open>other\<close>, an lvalue, so it reaches the same
  \<open>do_reassign(value_type&)\<close> as \<open>operator=(value_type&)\<close>.
\<close>

datatype 'a call =
    Deref
  | DerefConst
  | GetValue
  | GetValueConst
  | IsEvaluated
  | Assign 'a
  | AssignMove 'a

datatype 'a ret = RValue 'a | RBool bool | RVoid

fun returned :: "'e + 'a \<Rightarrow> 'e + 'a ret" where
  "returned (Inl e) = Inl e"
| "returned (Inr v) = Inr (RValue v)"

fun exec ::
  "'a call \<Rightarrow> ('a, 'w, 'e) LazyConcept \<times> 'w \<Rightarrow> ('e + 'a ret) \<times> ('a, 'w, 'e) LazyConcept \<times> 'w" where
  "exec Deref (l, w) = (case do_deref l w of (r, s) \<Rightarrow> (returned r, s))"
| "exec DerefConst (l, w) = (case do_deref_const l w of (r, s) \<Rightarrow> (returned r, s))"
| "exec GetValue (l, w) = (case do_deref l w of (r, s) \<Rightarrow> (returned r, s))"
| "exec GetValueConst (l, w) = (case do_deref_const l w of (r, s) \<Rightarrow> (returned r, s))"
| "exec IsEvaluated (l, w) = (Inr (RBool (isEvaluated l)), l, w)"
| "exec (Assign other) (l, w) = (Inr RVoid, do_reassign_lvalue l other, w)"
| "exec (AssignMove other) (l, w) = (Inr RVoid, do_reassign_lvalue l other, w)"

text \<open>
  A caller making the calls \<open>cs\<close> one after the other on the same object, catching what
  is thrown: the result of every call, and the object and environment at the end.
\<close>

fun run ::
  "'a call list \<Rightarrow> ('a, 'w, 'e) LazyConcept \<times> 'w \<Rightarrow>
     ('e + 'a ret) list \<times> ('a, 'w, 'e) LazyConcept \<times> 'w" where
  "run [] s = ([], s)"
| "run (c # cs) s =
     (case exec c s of (r, s') \<Rightarrow> (case run cs s' of (rs, s'') \<Rightarrow> (r # rs, s'')))"

text \<open>The calls that read the value: \<open>operator*\<close> and \<open>get_value\<close>, in both overloads.\<close>

fun is_access :: "'a call \<Rightarrow> bool" where
  "is_access Deref = True"
| "is_access DerefConst = True"
| "is_access GetValue = True"
| "is_access GetValueConst = True"
| "is_access IsEvaluated = False"
| "is_access (Assign other) = False"
| "is_access (AssignMove other) = False"

subsection \<open>Producers of the test suite\<close>

text \<open>
  \<open>build_int\<close> returns 3 and touches nothing. The lambda \<open>[&counter]() { return ++counter; }\<close>
  of the test \<open>EnsureObjectIsEvaluatedOnce\<close> has the counter as its environment.
\<close>

definition build_int :: "(int, 'w, 'e) evaluator_type" where
  "build_int w = (Inr 3, w)"

definition counter_lambda :: "(int, int, 'e) evaluator_type" where
  "counter_lambda counter = (Inr (counter + 1), counter + 1)"

text \<open>
  A producer for the failure path: it throws on its first invocation and returns 3 on
  every later one; its environment is the number of invocations so far.
\<close>

definition fails_once :: "(int, nat, string) evaluator_type" where
  "fails_once tries = (if tries = 0 then (Inl ''failed'', 1) else (Inr 3, tries))"

text \<open>
  The same instrument for any producer: \<open>counted f\<close> behaves as \<open>f\<close> and also increments
  a counter of its invocations, kept beside the environment of \<open>f\<close>.
\<close>

definition counted :: "('a, 'w, 'e) evaluator_type \<Rightarrow> ('a, nat \<times> 'w, 'e) evaluator_type" where
  "counted f = (\<lambda>(n, w). case f w of (r, w') \<Rightarrow> (r, (Suc n, w')))"

section \<open>Objects in storage and \<open>SharedLazy\<close>\<close>

text \<open>
  Objects that are shared or copied live at addresses. The state of a program is the
  store of its lazy objects together with the environment of the producers. A call on
  the object at an address updates that object in place. A call through a pointer with
  no object behind it (a null \<open>shared_ptr\<close>) is undefined in C++; here it gives \<open>None\<close>.
\<close>

type_synonym addr = nat

type_synonym ('a, 'w, 'e) machine = "(addr \<Rightarrow> ('a, 'w, 'e) LazyConcept option) \<times> 'w"

definition call_at ::
  "addr \<Rightarrow> 'a call \<Rightarrow> ('a, 'w, 'e) machine \<Rightarrow> (('e + 'a ret) \<times> ('a, 'w, 'e) machine) option" where
  "call_at a c = (\<lambda>(h, w).
     case h a of
       None \<Rightarrow> None
     | Some l \<Rightarrow> (case exec c (l, w) of (r, l', w') \<Rightarrow> Some (r, (h(a \<mapsto> l'), w'))))"

text \<open>
  \<open>std::make_shared<VariantLazy<int>>(build_int)\<close>, or the definition of a local object:
  a constructed object is placed at the address \<open>a\<close>.
\<close>

definition construct_at ::
  "addr \<Rightarrow> ('a, 'w, 'e) LazyConcept \<Rightarrow> ('a, 'w, 'e) machine \<Rightarrow> ('a, 'w, 'e) machine" where
  "construct_at a l = (\<lambda>(h, w). (h(a \<mapsto> l), w))"

text \<open>
  The implicit copy constructor of \<open>NotLazy\<close> and \<open>VariantLazy\<close> (\<open>auto copy = myLazyInt\<close>
  in the tests): the new object at \<open>dst\<close> gets a copy of the \<open>storage\<close> of the one at \<open>src\<close>.
\<close>

definition copy_construct ::
  "addr \<Rightarrow> addr \<Rightarrow> ('a, 'w, 'e) machine \<Rightarrow> ('a, 'w, 'e) machine option" where
  "copy_construct src dst = (\<lambda>(h, w).
     case h src of
       None \<Rightarrow> None
     | Some l \<Rightarrow> Some (h(dst \<mapsto> l), w))"

text \<open>
  \<open>SharedLazy<T>\<close> has the single member \<open>pimpl\<close>, a \<open>const std::shared_ptr\<close> to a
  \<open>LazyConcept<T>\<close>. Its constructor moves the pointer in; its implicit copy constructor
  copies the pointer, not the object.
\<close>

datatype SharedLazy = SharedLazy (pimpl: addr)

definition SharedLazy_init :: "addr \<Rightarrow> SharedLazy" where
  "SharedLazy_init ptr = SharedLazy ptr"

definition SharedLazy_copy :: "SharedLazy \<Rightarrow> SharedLazy" where
  "SharedLazy_copy other = SharedLazy (pimpl other)"

text \<open>
  The whole public interface of the handle: \<open>operator*\<close>, \<open>get_value\<close> and
  \<open>isEvaluated\<close>. The first two are \<open>pimpl->get_value()\<close>, the third is
  \<open>pimpl->isEvaluated()\<close>. The pointee of \<open>pimpl\<close> is not \<open>const\<close>, so the non-\<open>const\<close>
  \<open>get_value\<close> is the one called.
\<close>

datatype shared_call = SDeref | SGetValue | SIsEvaluated

fun delegate :: "shared_call \<Rightarrow> 'a call" where
  "delegate SDeref = GetValue"
| "delegate SGetValue = GetValue"
| "delegate SIsEvaluated = IsEvaluated"

definition shared_exec ::
  "shared_call \<Rightarrow> SharedLazy \<Rightarrow> ('a, 'w, 'e) machine \<Rightarrow>
     (('e + 'a ret) \<times> ('a, 'w, 'e) machine) option" where
  "shared_exec c p = call_at (pimpl p) (delegate c)"

text \<open>Calls made one after the other through handles, each call through its own handle.\<close>

fun shared_run ::
  "(SharedLazy \<times> shared_call) list \<Rightarrow> ('a, 'w, 'e) machine \<Rightarrow>
     (('e + 'a ret) list \<times> ('a, 'w, 'e) machine) option" where
  "shared_run [] s = Some ([], s)"
| "shared_run ((p, c) # pcs) s =
     (case shared_exec c p s of
        None \<Rightarrow> None
      | Some (r, s') \<Rightarrow>
          (case shared_run pcs s' of
             None \<Rightarrow> None
           | Some (rs, s'') \<Rightarrow> Some (r # rs, s'')))"

section \<open>Properties of a single object\<close>

lemma counted_apply: "f w = (r, w') \<Longrightarrow> counted f (n, w) = (r, (Suc n, w'))"
  by (simp add: counted_def)

lemma exec_access_Value:
  "is_access c \<Longrightarrow> exec c (VariantLazy (Value v), w) = (Inr (RValue v), VariantLazy (Value v), w)"
  by (cases c) simp_all

lemma exec_access_NotLazy:
  "is_access c \<Longrightarrow> exec c (NotLazy v, w) = (Inr (RValue v), NotLazy v, w)"
  by (cases c) simp_all

lemma exec_access_Evaluator_ok:
  "is_access c \<Longrightarrow> f w = (Inr v, w') \<Longrightarrow>
   exec c (VariantLazy (Evaluator f), w) = (Inr (RValue v), VariantLazy (Value v), w')"
  by (cases c) simp_all

lemma exec_access_Evaluator_throw:
  "is_access c \<Longrightarrow> f w = (Inl e, w') \<Longrightarrow>
   exec c (VariantLazy (Evaluator f), w) = (Inl e, VariantLazy (Evaluator f), w')"
  by (cases c) simp_all

lemma run_access_Value:
  "list_all is_access cs \<Longrightarrow>
   run cs (VariantLazy (Value v), w) =
     (replicate (length cs) (Inr (RValue v)), VariantLazy (Value v), w)"
  by (induction cs) (simp_all add: exec_access_Value)

text \<open>
  C1. A \<open>VariantLazy\<close> is constructed from a producer that counts its invocations and
  whose first invocation returns \<open>v\<close>. After any \<open>N \<ge> 1\<close> calls of \<open>operator*\<close> or
  \<open>get_value\<close> on it, the producer has been invoked exactly once (the counter went from
  \<open>n\<close> to \<open>n + 1\<close>, the environment is the one the single invocation left), every one of
  the calls returned \<open>v\<close>, and the object holds \<open>v\<close>.
\<close>

theorem VariantLazy_evaluated_once:
  assumes "evaluator w = (Inr v, w')" and "cs \<noteq> []" and "list_all is_access cs"
  shows "run cs (VariantLazy_init (counted evaluator), (n, w)) =
           (replicate (length cs) (Inr (RValue v)), VariantLazy (Value v), (Suc n, w'))"
proof (cases cs)
  case Nil
  with assms(2) show ?thesis by simp
next
  case (Cons c cs')
  from assms(3) Cons have c: "is_access c" and cs': "list_all is_access cs'"
    by simp_all
  have first: "exec c (VariantLazy (Evaluator (counted evaluator)), (n, w)) =
      (Inr (RValue v), VariantLazy (Value v), (Suc n, w'))"
    using c assms(1) by (simp add: exec_access_Evaluator_ok counted_def)
  show ?thesis
    by (simp add: Cons VariantLazy_init_def first run_access_Value [OF cs'])
qed

theorem VariantLazy_evaluated_once_witness:
  "run [GetValue, GetValue] (VariantLazy_init (counted counter_lambda), (0, 0)) =
     ([Inr (RValue 1), Inr (RValue 1)], VariantLazy (Value 1), (Suc 0, 1))"
  using VariantLazy_evaluated_once
    [of counter_lambda 0 1 1 "[GetValue, GetValue]" 0]
  by (simp add: counter_lambda_def)


subsection \<open>Sequences of calls\<close>

lemma run_append:
  "run (cs @ ds) s =
     (case run cs s of (rs, s') \<Rightarrow> (case run ds s' of (rs', s'') \<Rightarrow> (rs @ rs', s'')))"
  by (induction cs arbitrary: s) (simp_all split: prod.splits)

lemma run_Cons_state: "snd (run (c # cs) s) = snd (run cs (snd (exec c s)))"
  by (simp split: prod.splits)

lemma run_Cons_results:
  "fst (run (c # cs) s) = fst (exec c s) # fst (run cs (snd (exec c s)))"
  by (simp split: prod.splits)

lemma length_run: "length (fst (run cs s)) = length cs"
proof (induction cs arbitrary: s)
  case Nil
  show ?case by simp
next
  case (Cons c cs)
  show ?case by (simp only: run_Cons_results Cons.IH list.size)
qed

lemma exec_evaluated:
  assumes "isEvaluated l"
  shows "isEvaluated (fst (snd (exec c (l, w)))) \<and> snd (snd (exec c (l, w))) = w \<and>
         \<not> isl (fst (exec c (l, w)))"
proof (cases l)
  case (NotLazy x)
  then show ?thesis by (cases c) simp_all
next
  case (VariantLazy st)
  with assms obtain v where "st = Value v" by (cases st) simp_all
  with VariantLazy show ?thesis by (cases c) simp_all
qed

lemma run_evaluated:
  "isEvaluated l \<Longrightarrow>
   isEvaluated (fst (snd (run cs (l, w)))) \<and> snd (snd (run cs (l, w))) = w \<and>
   list_all (\<lambda>r. \<not> isl r) (fst (run cs (l, w)))"
proof (induction cs arbitrary: l)
  case Nil
  then show ?case by simp
next
  case (Cons c cs)
  obtain r l' w' where e: "exec c (l, w) = (r, l', w')"
    by (cases "exec c (l, w)") auto
  from exec_evaluated [OF Cons.prems, of c w] e
  have l': "isEvaluated l'" and w': "w' = w" and r: "\<not> isl r" by simp_all
  from Cons.IH [OF l'] show ?case
    by (simp add: run_Cons_state run_Cons_results e w' r del: run.simps)
qed

lemma exec_Value_state:
  "snd (exec c (VariantLazy (Value v), w)) =
     (VariantLazy (Value (case c of Assign u \<Rightarrow> u | AssignMove u \<Rightarrow> u | _ \<Rightarrow> v)), w)"
  by (cases c) simp_all

lemma run_Value_stays:
  "\<exists>u. fst (snd (run cs (VariantLazy (Value v), w))) = VariantLazy (Value u)"
proof (induction cs arbitrary: v)
  case Nil
  show ?case by simp
next
  case (Cons c cs)
  show ?case by (simp only: run_Cons_state exec_Value_state Cons.IH)
qed

lemma exec_NotLazy_state:
  "snd (exec c (NotLazy v, w)) =
     (NotLazy (case c of Assign u \<Rightarrow> u | AssignMove u \<Rightarrow> u | _ \<Rightarrow> v), w)"
  by (cases c) simp_all

lemma run_NotLazy_stays:
  "\<exists>u. fst (snd (run cs (NotLazy v, w))) = NotLazy u"
proof (induction cs arbitrary: v)
  case Nil
  show ?case by simp
next
  case (Cons c cs)
  show ?case by (simp only: run_Cons_state exec_NotLazy_state Cons.IH)
qed

lemma do_reassign_evaluated: "isEvaluated (do_reassign_lvalue l v)"
  by (cases l) simp_all

lemma do_reassign_overloads: "do_reassign_rvalue l v = do_reassign_lvalue l v"
  by (cases l) simp_all

lemma exec_access_reassigned:
  "is_access g \<Longrightarrow>
   exec g (do_reassign_lvalue l v, w) = (Inr (RValue v), do_reassign_lvalue l v, w)"
  by (cases l) (simp_all add: exec_access_NotLazy exec_access_Value)

lemma run_evaluated_env: "isEvaluated l \<Longrightarrow> snd (snd (run cs (l, w))) = w"
  using run_evaluated [of l cs w] by simp

lemma run_evaluated_still:
  "isEvaluated l \<Longrightarrow> isEvaluated (fst (snd (run cs (l, w))))"
  using run_evaluated [of l cs w] by simp

lemma run_evaluated_returns:
  "isEvaluated l \<Longrightarrow> list_all (\<lambda>r. \<not> isl r) (fst (run cs (l, w)))"
  using run_evaluated [of l cs w] by simp

text \<open>
  C2. The producer of a \<open>VariantLazy\<close> throws \<open>e\<close> when \<open>operator*\<close> or \<open>get_value\<close> invokes
  it. Then the call ends with \<open>e\<close>, the object is the one constructed (it still holds the
  producer and \<open>isEvaluated\<close> is false), and a second read invokes the producer again:
  the invocation counter is \<open>n + 2\<close>, and what the second read returns or throws, and what
  the object then holds, is what the second invocation gave.
\<close>

theorem producer_failure_retried:
  assumes "evaluator w = (Inl e, w')" and "is_access c" and "is_access c'"
  shows "exec c (VariantLazy_init (counted evaluator), (n, w)) =
           (Inl e, VariantLazy_init (counted evaluator), (Suc n, w')) \<and>
         isEvaluated (fst (snd (exec c (VariantLazy_init (counted evaluator), (n, w))))) = False \<and>
         run [c, c'] (VariantLazy_init (counted evaluator), (n, w)) =
           ([Inl e, returned (fst (evaluator w'))],
            (case fst (evaluator w') of
               Inl e' \<Rightarrow> VariantLazy (Evaluator (counted evaluator))
             | Inr v \<Rightarrow> VariantLazy (Value v)),
            (Suc (Suc n), snd (evaluator w')))"
proof -
  let ?l = "VariantLazy (Evaluator (counted evaluator))"
  have first: "exec c (?l, (n, w)) = (Inl e, ?l, (Suc n, w'))"
    using assms(2) assms(1) by (simp add: exec_access_Evaluator_throw counted_def)
  have second: "exec c' (?l, (Suc n, w')) =
      (returned (fst (evaluator w')),
       (case fst (evaluator w') of Inl e' \<Rightarrow> ?l | Inr v \<Rightarrow> VariantLazy (Value v)),
       (Suc (Suc n), snd (evaluator w')))"
  proof (cases "evaluator w'")
    case (Pair r w'')
    show ?thesis
    proof (cases r)
      case (Inl e')
      with Pair assms(3) show ?thesis
        by (simp add: exec_access_Evaluator_throw counted_def)
    next
      case (Inr v)
      with Pair assms(3) show ?thesis
        by (simp add: exec_access_Evaluator_ok counted_def)
    qed
  qed
  show ?thesis
    by (simp add: VariantLazy_init_def first second)
qed

theorem producer_failure_retried_witness:
  "run [GetValue, Deref] (VariantLazy_init (counted fails_once), (0, 0)) =
     ([Inl ''failed'', Inr (RValue 3)], VariantLazy (Value 3), (Suc (Suc 0), 1))"
proof -
  have h: "fails_once 0 = (Inl ''failed'', 1)"
    by (simp add: fails_once_def)
  have g: "is_access (GetValue :: int call)" and d: "is_access (Deref :: int call)"
    by simp_all
  from producer_failure_retried [of fails_once 0 "''failed''" 1 GetValue Deref 0, OF h g d]
  have "run [GetValue, Deref] (VariantLazy_init (counted fails_once), (0, 0)) =
          ([Inl ''failed'', returned (fst (fails_once 1))],
           (case fst (fails_once 1) of
              Inl e' \<Rightarrow> VariantLazy (Evaluator (counted fails_once))
            | Inr v \<Rightarrow> VariantLazy (Value v)),
           (Suc (Suc 0), snd (fails_once 1)))"
    by (elim conjE)
  then show ?thesis
    by (simp add: fails_once_def del: run.simps)
qed

text \<open>
  C4. \<open>operator=\<close> with the value \<open>v\<close>, on an object of either class in any state, returns
  without touching the environment and leaves an object for which \<open>isEvaluated\<close> is true
  and every read returns \<open>v\<close>; whatever calls follow, the environment stays as it is, so
  no producer runs any more. Both overloads of \<open>do_reassign\<close> store the same.
\<close>

theorem reassign_overwrites:
  assumes "c = Assign v \<or> c = AssignMove v"
  shows "exec c (l, w) = (Inr RVoid, do_reassign_lvalue l v, w) \<and>
         do_reassign_rvalue l v = do_reassign_lvalue l v \<and>
         isEvaluated (do_reassign_lvalue l v) \<and>
         (\<forall>g. is_access g \<longrightarrow>
            exec g (do_reassign_lvalue l v, w) = (Inr (RValue v), do_reassign_lvalue l v, w)) \<and>
         (\<forall>cs. snd (snd (run cs (do_reassign_lvalue l v, w))) = w \<and>
               isEvaluated (fst (snd (run cs (do_reassign_lvalue l v, w)))))"
proof (intro conjI allI impI)
  show "exec c (l, w) = (Inr RVoid, do_reassign_lvalue l v, w)"
    using assms by (elim disjE) simp_all
  show "do_reassign_rvalue l v = do_reassign_lvalue l v"
    by (rule do_reassign_overloads)
  show "isEvaluated (do_reassign_lvalue l v)"
    by (rule do_reassign_evaluated)
  show "exec g (do_reassign_lvalue l v, w) = (Inr (RValue v), do_reassign_lvalue l v, w)"
    if "is_access g" for g
    using that by (rule exec_access_reassigned)
  show "snd (snd (run cs (do_reassign_lvalue l v, w))) = w" for cs
    using do_reassign_evaluated by (rule run_evaluated_env)
  show "isEvaluated (fst (snd (run cs (do_reassign_lvalue l v, w))))" for cs
    using do_reassign_evaluated by (rule run_evaluated_still)
qed

theorem reassign_overwrites_witness:
  "exec (Assign 5) (VariantLazy_init (counted build_int), (0 :: nat, ())) =
     (Inr RVoid, VariantLazy (Value 5), (0, ())) \<and>
   exec GetValue (VariantLazy (Value (5 :: int)), (0 :: nat, ())) =
     (Inr (RValue 5), VariantLazy (Value 5), (0, ()))"
proof -
  have h: "Assign (5 :: int) = Assign 5 \<or> Assign (5 :: int) = AssignMove 5" by simp
  from reassign_overwrites [OF h, of "VariantLazy_init (counted build_int)" "(0 :: nat, ())"]
  have "exec (Assign 5) (VariantLazy_init (counted build_int), (0 :: nat, ())) =
          (Inr RVoid, do_reassign_lvalue (VariantLazy_init (counted build_int)) 5, (0, ()))"
    by (elim conjE)
  then show ?thesis
    by (simp add: VariantLazy_init_def)
qed

text \<open>
  C5. Once a \<open>VariantLazy\<close> holds a value, it holds a value after any sequence of calls
  of the public interface (\<open>operator*\<close>, \<open>get_value\<close>, \<open>isEvaluated\<close>, \<open>operator=\<close>):
  \<open>isEvaluated\<close> stays true and the variant never holds a producer again.
\<close>

theorem evaluated_is_terminal:
  "isEvaluated (fst (snd (run cs (VariantLazy (Value v), w)))) \<and>
   (\<exists>u. fst (snd (run cs (VariantLazy (Value v), w))) = VariantLazy (Value u))"
proof
  have "isEvaluated (VariantLazy (Value v))" by simp
  then show "isEvaluated (fst (snd (run cs (VariantLazy (Value v), w))))"
    by (rule run_evaluated_still)
  show "\<exists>u. fst (snd (run cs (VariantLazy (Value v), w))) = VariantLazy (Value u)"
    by (rule run_Value_stays)
qed

theorem evaluated_is_terminal_witness:
  "isEvaluated
     (fst (snd (run [Deref, IsEvaluated, Assign 5, GetValueConst] (VariantLazy (Value (3 :: int)), ()))))"
  using evaluated_is_terminal
    [of "[Deref, IsEvaluated, Assign 5, GetValueConst]" "3 :: int" "()"]
  by (rule conjunct1)




lemma run_append_state: "snd (run (cs @ ds) s) = snd (run ds (snd (run cs s)))"
  by (simp add: run_append split: prod.splits)

lemma run_append_results:
  "fst (run (cs @ ds) s) = fst (run cs s) @ fst (run ds (snd (run cs s)))"
  by (simp add: run_append split: prod.splits)

lemma exec_IsEvaluated_state: "snd (exec IsEvaluated s) = s"
  by (cases s) simp

lemma exec_IsEvaluated_result:
  "fst (exec IsEvaluated s) = Inr (RBool (isEvaluated (fst s)))"
  by (cases s) simp

text \<open>
  C6. \<open>isEvaluated\<close> leaves the object and the environment as they are, for both classes
  and in every state. So a call of \<open>isEvaluated\<close> put anywhere into a sequence of calls
  changes neither the state at the end nor what any other call of the sequence returns.
\<close>

theorem isEvaluated_has_no_effect:
  "exec IsEvaluated (l, w) = (Inr (RBool (isEvaluated l)), l, w) \<and>
   snd (run (cs @ IsEvaluated # ds) s) = snd (run (cs @ ds) s) \<and>
   fst (run (cs @ IsEvaluated # ds) s) =
     take (length cs) (fst (run (cs @ ds) s)) @
     Inr (RBool (isEvaluated (fst (snd (run cs s))))) #
     drop (length cs) (fst (run (cs @ ds) s))"
proof (intro conjI)
  show "exec IsEvaluated (l, w) = (Inr (RBool (isEvaluated l)), l, w)"
    by simp
  show "snd (run (cs @ IsEvaluated # ds) s) = snd (run (cs @ ds) s)"
    by (simp only: run_append_state run_Cons_state exec_IsEvaluated_state)
  have len: "length (fst (run cs s)) = length cs"
    by (rule length_run)
  show "fst (run (cs @ IsEvaluated # ds) s) =
     take (length cs) (fst (run (cs @ ds) s)) @
     Inr (RBool (isEvaluated (fst (snd (run cs s))))) #
     drop (length cs) (fst (run (cs @ ds) s))"
    by (simp add: run_append_results run_Cons_results exec_IsEvaluated_state
        exec_IsEvaluated_result len del: run.simps)
qed

theorem isEvaluated_has_no_effect_witness:
  "snd (run ([] @ IsEvaluated # [GetValue]) (VariantLazy_init counter_lambda, 0)) =
   snd (run ([] @ [GetValue]) (VariantLazy_init counter_lambda, 0))"
  using isEvaluated_has_no_effect
    [of "VariantLazy_init counter_lambda" 0 "[]" "[GetValue]" "(VariantLazy_init counter_lambda, 0)"]
  by (elim conjE)

lemma run_access_NotLazy:
  "list_all is_access cs \<Longrightarrow>
   run cs (NotLazy v, w) = (replicate (length cs) (Inr (RValue v)), NotLazy v, w)"
  by (induction cs) (simp_all add: exec_access_NotLazy)

text \<open>
  C8. A \<open>NotLazy\<close> constructed from \<open>v\<close> stores \<open>v\<close>. \<open>isEvaluated\<close> is true at once and
  after any sequence of calls; the object stays a \<open>NotLazy\<close>, no call of the sequence
  throws, and the environment is never touched, so nothing is computed. A read of the
  constructed object returns \<open>v\<close> and changes nothing, and so does every read of a
  sequence of reads; in general a read of a \<open>NotLazy\<close> returns its stored value and
  changes nothing.
\<close>

theorem NotLazy_always_evaluated:
  "isEvaluated (NotLazy_init v) \<and>
   isEvaluated (fst (snd (run cs (NotLazy_init v, w)))) \<and>
   (\<exists>u. fst (snd (run cs (NotLazy_init v, w))) = NotLazy u) \<and>
   snd (snd (run cs (NotLazy_init v, w))) = w \<and>
   list_all (\<lambda>r. \<not> isl r) (fst (run cs (NotLazy_init v, w))) \<and>
   (\<forall>c u. is_access c \<longrightarrow> exec c (NotLazy u, w) = (Inr (RValue u), NotLazy u, w)) \<and>
   NotLazy_init v = NotLazy v \<and>
   (\<forall>c. is_access c \<longrightarrow>
      exec c (NotLazy_init v, w) = (Inr (RValue v), NotLazy_init v, w)) \<and>
   (list_all is_access cs \<longrightarrow>
      run cs (NotLazy_init v, w) =
        (replicate (length cs) (Inr (RValue v)), NotLazy_init v, w))"
proof (intro conjI allI impI)
  show e: "isEvaluated (NotLazy_init v)"
    by (simp add: NotLazy_init_def)
  from e show "isEvaluated (fst (snd (run cs (NotLazy_init v, w))))"
    by (rule run_evaluated_still)
  show "\<exists>u. fst (snd (run cs (NotLazy_init v, w))) = NotLazy u"
    unfolding NotLazy_init_def by (rule run_NotLazy_stays)
  from e show "snd (snd (run cs (NotLazy_init v, w))) = w"
    by (rule run_evaluated_env)
  from e show "list_all (\<lambda>r. \<not> isl r) (fst (run cs (NotLazy_init v, w)))"
    by (rule run_evaluated_returns)
  show "exec c (NotLazy u, w) = (Inr (RValue u), NotLazy u, w)" if "is_access c" for c u
    using that by (rule exec_access_NotLazy)
  show "NotLazy_init v = NotLazy v"
    by (simp add: NotLazy_init_def)
  show "exec c (NotLazy_init v, w) = (Inr (RValue v), NotLazy_init v, w)"
    if "is_access c" for c
    unfolding NotLazy_init_def using that by (rule exec_access_NotLazy)
  show "run cs (NotLazy_init v, w) =
      (replicate (length cs) (Inr (RValue v)), NotLazy_init v, w)"
    if "list_all is_access cs"
    unfolding NotLazy_init_def using that by (rule run_access_NotLazy)
qed

theorem NotLazy_always_evaluated_witness:
  "isEvaluated (NotLazy_init (3 :: int) :: (int, unit, unit) LazyConcept) \<and>
   isEvaluated
     (fst (snd (run [Deref, IsEvaluated, AssignMove 5, Deref]
        (NotLazy_init (3 :: int) :: (int, unit, unit) LazyConcept, ())))) \<and>
   list_all (\<lambda>r. \<not> isl r)
     (fst (run [Deref, IsEvaluated, AssignMove 5, Deref]
        (NotLazy_init (3 :: int) :: (int, unit, unit) LazyConcept, ()))) \<and>
   exec Deref (NotLazy_init (3 :: int) :: (int, unit, unit) LazyConcept, ()) =
     (Inr (RValue 3), NotLazy 3, ()) \<and>
   exec GetValue (NotLazy_init (3 :: int) :: (int, unit, unit) LazyConcept, ()) =
     (Inr (RValue 3), NotLazy 3, ())"
proof -
  let ?l = "NotLazy_init (3 :: int) :: (int, unit, unit) LazyConcept"
  note t = NotLazy_always_evaluated
    [of "3 :: int" "[Deref, IsEvaluated, AssignMove 5, Deref]" "()"]
  from t have a: "isEvaluated ?l"
    by (elim conjE)
  from t have b: "isEvaluated
      (fst (snd (run [Deref, IsEvaluated, AssignMove 5, Deref] (?l, ()))))"
    by (elim conjE)
  from t have c: "list_all (\<lambda>r. \<not> isl r)
     (fst (run [Deref, IsEvaluated, AssignMove 5, Deref] (?l, ())))"
    by (elim conjE)
  from t have i: "?l = NotLazy 3"
    by (elim conjE)
  from t have r: "\<forall>c. is_access c \<longrightarrow> exec c (?l, ()) = (Inr (RValue 3), ?l, ())"
    by (elim conjE)
  from r have "is_access (Deref :: int call) \<longrightarrow>
      exec Deref (?l, ()) = (Inr (RValue 3), ?l, ())"
    by (rule spec)
  then have "exec Deref (?l, ()) = (Inr (RValue 3), ?l, ())"
    by (simp del: exec.simps)
  with i have d: "exec Deref (?l, ()) = (Inr (RValue 3), NotLazy 3, ())"
    by (simp del: exec.simps)
  from r have "is_access (GetValue :: int call) \<longrightarrow>
      exec GetValue (?l, ()) = (Inr (RValue 3), ?l, ())"
    by (rule spec)
  then have "exec GetValue (?l, ()) = (Inr (RValue 3), ?l, ())"
    by (simp del: exec.simps)
  with i have g: "exec GetValue (?l, ()) = (Inr (RValue 3), NotLazy 3, ())"
    by (simp del: exec.simps)
  from a b c d g show ?thesis by (intro conjI)
qed


section \<open>Properties of objects in storage\<close>

lemma call_at_Some:
  "h a = Some l \<Longrightarrow> exec c (l, w) = (r, l', w') \<Longrightarrow>
   call_at a c (h, w) = Some (r, (h(a \<mapsto> l'), w'))"
  by (simp add: call_at_def)

lemma call_at_unchanged:
  "h a = Some l \<Longrightarrow> exec c (l, w) = (r, l, w') \<Longrightarrow>
   call_at a c (h, w) = Some (r, (h, w'))"
  by (simp add: call_at_def map_upd_triv)

lemma is_access_delegate:
  "c = SDeref \<or> c = SGetValue \<Longrightarrow> is_access (delegate c)"
  by (elim disjE) simp_all

lemma shared_exec_isEvaluated:
  "h (pimpl p) = Some l \<Longrightarrow>
   shared_exec SIsEvaluated p (h, w) = Some (Inr (RBool (isEvaluated l)), (h, w))"
  by (simp add: shared_exec_def call_at_unchanged)

lemma shared_exec_read_Value:
  assumes "h (pimpl p) = Some (VariantLazy (Value v))" and "c = SDeref \<or> c = SGetValue"
  shows "shared_exec c p (h, w) = Some (Inr (RValue v), (h, w))"
  unfolding shared_exec_def
  using assms(1) exec_access_Value [OF is_access_delegate [OF assms(2)]]
  by (rule call_at_unchanged)

lemma shared_exec_read_Evaluator:
  assumes "h (pimpl p) = Some (VariantLazy (Evaluator f))" and "f w = (Inr v, w')"
    and "c = SDeref \<or> c = SGetValue"
  shows "shared_exec c p (h, w) =
           Some (Inr (RValue v), (h(pimpl p \<mapsto> VariantLazy (Value v)), w'))"
proof -
  have "is_access (delegate c :: 'a call)"
    using assms(3) by (rule is_access_delegate)
  then have "exec (delegate c) (VariantLazy (Evaluator f), w) =
      (Inr (RValue v), VariantLazy (Value v), w')"
    using assms(2) by (simp add: exec_access_Evaluator_ok)
  with assms(1) show ?thesis
    unfolding shared_exec_def by (rule call_at_Some)
qed

lemma exec_delegate_evaluated:
  "isEvaluated l \<Longrightarrow> snd (exec (delegate c) (l, w)) = (l, w)"
proof (cases l)
  case (NotLazy x)
  then show ?thesis by (cases c) simp_all
next
  case (VariantLazy st)
  assume "isEvaluated l"
  with VariantLazy obtain v where "st = Value v" by (cases st) simp_all
  with VariantLazy show ?thesis by (cases c) simp_all
qed

lemma shared_exec_evaluated:
  assumes "h (pimpl p) = Some l" and "isEvaluated l"
  shows "\<exists>r. shared_exec c p (h, w) = Some (r, (h, w))"
proof -
  from exec_delegate_evaluated [OF assms(2), of c w]
  have "exec (delegate c) (l, w) = (fst (exec (delegate c) (l, w)), l, w)"
    by (cases "exec (delegate c) (l, w)") simp
  with assms(1) have "call_at (pimpl p) (delegate c) (h, w) =
      Some (fst (exec (delegate c) (l, w)), (h, w))"
    by (rule call_at_unchanged)
  then show ?thesis
    by (simp add: shared_exec_def)
qed

lemma shared_run_evaluated:
  assumes "h a = Some l" and "isEvaluated l"
  shows "list_all (\<lambda>pc. pimpl (fst pc) = a) pcs \<Longrightarrow>
         \<exists>rs. shared_run pcs (h, w) = Some (rs, (h, w))"
proof (induction pcs)
  case Nil
  show ?case by simp
next
  case (Cons pc pcs)
  obtain p c where pc: "pc = (p, c)" by (cases pc)
  from Cons.prems pc have p: "pimpl p = a" and rest: "list_all (\<lambda>pc. pimpl (fst pc) = a) pcs"
    by simp_all
  from assms(1) p have "h (pimpl p) = Some l" by simp
  then have "\<exists>r. shared_exec c p (h, w) = Some (r, (h, w))"
    using assms(2) by (rule shared_exec_evaluated)
  then obtain r where r: "shared_exec c p (h, w) = Some (r, (h, w))" ..
  from Cons.IH [OF rest] obtain rs where rs: "shared_run pcs (h, w) = Some (rs, (h, w))" ..
  show ?case by (simp add: pc r rs)
qed


text \<open>
  C3. A \<open>VariantLazy\<close> constructed from a counting producer lies at the address \<open>a\<close>,
  \<open>H\<close> is a handle to it and \<open>H2\<close> a copy of \<open>H\<close>. While the object is unevaluated both
  handles report \<open>isEvaluated\<close> false. One read through either handle invokes the
  producer once and stores its value in the object at \<open>a\<close>. In that state both handles
  report \<open>isEvaluated\<close> true, and a read through either handle returns the stored value
  and leaves the whole state, invocation counter included, as it is.
\<close>

theorem shared_handles_share_evaluation:
  assumes "h a = Some (VariantLazy_init (counted evaluator))"
    and "evaluator w = (Inr v, w')"
    and "H = SharedLazy_init a" and "H2 = SharedLazy_copy H"
    and "X = H \<or> X = H2" and "Y = H \<or> Y = H2"
    and "c = SDeref \<or> c = SGetValue" and "c' = SDeref \<or> c' = SGetValue"
  shows "shared_exec SIsEvaluated H (h, (n, w)) = Some (Inr (RBool False), (h, (n, w))) \<and>
         shared_exec SIsEvaluated H2 (h, (n, w)) = Some (Inr (RBool False), (h, (n, w))) \<and>
         shared_exec c X (h, (n, w)) =
           Some (Inr (RValue v), (h(a \<mapsto> VariantLazy (Value v)), (Suc n, w'))) \<and>
         shared_exec SIsEvaluated H (h(a \<mapsto> VariantLazy (Value v)), (Suc n, w')) =
           Some (Inr (RBool True), (h(a \<mapsto> VariantLazy (Value v)), (Suc n, w'))) \<and>
         shared_exec SIsEvaluated H2 (h(a \<mapsto> VariantLazy (Value v)), (Suc n, w')) =
           Some (Inr (RBool True), (h(a \<mapsto> VariantLazy (Value v)), (Suc n, w'))) \<and>
         shared_exec c' Y (h(a \<mapsto> VariantLazy (Value v)), (Suc n, w')) =
           Some (Inr (RValue v), (h(a \<mapsto> VariantLazy (Value v)), (Suc n, w')))"
proof -
  let ?h' = "h(a \<mapsto> VariantLazy (Value v))"
  have H: "pimpl H = a" and H2: "pimpl H2 = a"
    using assms(3,4) by (simp_all add: SharedLazy_init_def SharedLazy_copy_def)
  from assms(5) H H2 have X: "pimpl X = a" by auto
  from assms(6) H H2 have Y: "pimpl Y = a" by auto
  have before: "h (pimpl p) = Some (VariantLazy (Evaluator (counted evaluator)))"
    if "pimpl p = a" for p
    using that assms(1) by (simp add: VariantLazy_init_def)
  have after: "?h' (pimpl p) = Some (VariantLazy (Value v))" if "pimpl p = a" for p
    using that by simp
  have cnt: "counted evaluator (n, w) = (Inr v, (Suc n, w'))"
    using assms(2) by (simp add: counted_def)
  have 1: "shared_exec SIsEvaluated H (h, (n, w)) = Some (Inr (RBool False), (h, (n, w)))"
    by (simp add: shared_exec_isEvaluated [of h H, OF before [OF H]])
  have 2: "shared_exec SIsEvaluated H2 (h, (n, w)) = Some (Inr (RBool False), (h, (n, w)))"
    by (simp add: shared_exec_isEvaluated [of h H2, OF before [OF H2]])
  have "shared_exec c X (h, (n, w)) =
      Some (Inr (RValue v), (h(pimpl X \<mapsto> VariantLazy (Value v)), (Suc n, w')))"
    using before [OF X] cnt assms(7) by (rule shared_exec_read_Evaluator)
  then have 3: "shared_exec c X (h, (n, w)) = Some (Inr (RValue v), (?h', (Suc n, w')))"
    by (simp only: X)
  have 4: "shared_exec SIsEvaluated H (?h', (Suc n, w')) =
      Some (Inr (RBool True), (?h', (Suc n, w')))"
    by (simp add: shared_exec_isEvaluated [of ?h' H, OF after [OF H]])
  have 5: "shared_exec SIsEvaluated H2 (?h', (Suc n, w')) =
      Some (Inr (RBool True), (?h', (Suc n, w')))"
    by (simp add: shared_exec_isEvaluated [of ?h' H2, OF after [OF H2]])
  have 6: "shared_exec c' Y (?h', (Suc n, w')) = Some (Inr (RValue v), (?h', (Suc n, w')))"
    using after [OF Y] assms(8) by (rule shared_exec_read_Value)
  from 1 2 3 4 5 6 show ?thesis by (intro conjI)
qed


theorem shared_handles_share_evaluation_witness:
  "shared_exec SIsEvaluated (SharedLazy_copy (SharedLazy_init 0))
     ([0 \<mapsto> VariantLazy_init (counted (build_int :: (int, unit, string) evaluator_type))],
      (0, ())) =
     Some (Inr (RBool False),
       ([0 \<mapsto> VariantLazy_init (counted (build_int :: (int, unit, string) evaluator_type))],
        (0, ()))) \<and>
   shared_exec SDeref (SharedLazy_init 0)
     ([0 \<mapsto> VariantLazy_init (counted (build_int :: (int, unit, string) evaluator_type))],
      (0, ())) =
     Some (Inr (RValue 3),
       ([0 \<mapsto> VariantLazy_init (counted (build_int :: (int, unit, string) evaluator_type))]
          (0 \<mapsto> VariantLazy (Value 3)),
        (Suc 0, ()))) \<and>
   shared_exec SIsEvaluated (SharedLazy_copy (SharedLazy_init 0))
     ([0 \<mapsto> VariantLazy_init (counted (build_int :: (int, unit, string) evaluator_type))]
        (0 \<mapsto> VariantLazy (Value 3)),
      (Suc 0, ())) =
     Some (Inr (RBool True),
       ([0 \<mapsto> VariantLazy_init (counted (build_int :: (int, unit, string) evaluator_type))]
          (0 \<mapsto> VariantLazy (Value 3)),
        (Suc 0, ()))) \<and>
   shared_exec SGetValue (SharedLazy_copy (SharedLazy_init 0))
     ([0 \<mapsto> VariantLazy_init (counted (build_int :: (int, unit, string) evaluator_type))]
        (0 \<mapsto> VariantLazy (Value 3)),
      (Suc 0, ())) =
     Some (Inr (RValue 3),
       ([0 \<mapsto> VariantLazy_init (counted (build_int :: (int, unit, string) evaluator_type))]
          (0 \<mapsto> VariantLazy (Value 3)),
        (Suc 0, ())))"
proof -
  let ?b = "build_int :: (int, unit, string) evaluator_type"
  let ?h = "[0 \<mapsto> VariantLazy_init (counted ?b)]"
  let ?H = "SharedLazy_init 0"
  let ?H2 = "SharedLazy_copy ?H"
  have a: "?h 0 = Some (VariantLazy_init (counted ?b))"
    by simp
  have b: "?b () = (Inr 3, ())"
    by (simp add: build_int_def)
  have x: "?H = ?H \<or> ?H = ?H2" and y: "?H2 = ?H \<or> ?H2 = ?H2"
    by simp_all
  have c: "SDeref = SDeref \<or> SDeref = SGetValue" and c': "SGetValue = SDeref \<or> SGetValue = SGetValue"
    by simp_all
  from shared_handles_share_evaluation
    [of ?h 0 ?b "()" 3 "()" ?H ?H2 ?H ?H2 SDeref SGetValue 0, OF a b refl refl x y c c']
  show ?thesis
    by (elim conjE, intro conjI)
qed

text \<open>
  C7. The constructor of \<open>VariantLazy\<close> stores the producer: the object holds the
  producer and \<open>isEvaluated\<close> is false, and placing the constructed object in storage
  leaves the environment, and with it the invocation counter, as it was. A first call
  that is not a read leaves the counter as it was too; a first read invokes the
  producer once and returns or throws what the producer did.
\<close>

theorem VariantLazy_construction_defers:
  "VariantLazy_init evaluator = VariantLazy (Evaluator evaluator) \<and>
   isEvaluated (VariantLazy_init evaluator) = False \<and>
   construct_at a (VariantLazy_init (counted evaluator)) (h, (n, w)) =
     (h(a \<mapsto> VariantLazy (Evaluator (counted evaluator))), (n, w)) \<and>
   (\<not> is_access c \<longrightarrow>
      snd (snd (exec c (VariantLazy_init (counted evaluator), (n, w)))) = (n, w)) \<and>
   (is_access c \<longrightarrow>
      exec c (VariantLazy_init (counted evaluator), (n, w)) =
        (returned (fst (evaluator w)),
         (case fst (evaluator w) of
            Inl e \<Rightarrow> VariantLazy (Evaluator (counted evaluator))
          | Inr v \<Rightarrow> VariantLazy (Value v)),
         (Suc n, snd (evaluator w))))"
proof (intro conjI impI)
  show "VariantLazy_init evaluator = VariantLazy (Evaluator evaluator)"
    by (simp add: VariantLazy_init_def)
  show "isEvaluated (VariantLazy_init evaluator) = False"
    by (simp add: VariantLazy_init_def)
  show "construct_at a (VariantLazy_init (counted evaluator)) (h, (n, w)) =
     (h(a \<mapsto> VariantLazy (Evaluator (counted evaluator))), (n, w))"
    by (simp add: construct_at_def VariantLazy_init_def)
  show "snd (snd (exec c (VariantLazy_init (counted evaluator), (n, w)))) = (n, w)"
    if "\<not> is_access c"
    using that by (cases c) (simp_all add: VariantLazy_init_def)
  show "exec c (VariantLazy_init (counted evaluator), (n, w)) =
        (returned (fst (evaluator w)),
         (case fst (evaluator w) of
            Inl e \<Rightarrow> VariantLazy (Evaluator (counted evaluator))
          | Inr v \<Rightarrow> VariantLazy (Value v)),
         (Suc n, snd (evaluator w)))"
    if acc: "is_access c"
  proof (cases "evaluator w")
    case (Pair r w')
    show ?thesis
    proof (cases r)
      case (Inl e)
      with Pair acc show ?thesis
        by (simp add: VariantLazy_init_def exec_access_Evaluator_throw counted_def)
    next
      case (Inr v)
      with Pair acc show ?thesis
        by (simp add: VariantLazy_init_def exec_access_Evaluator_ok counted_def)
    qed
  qed
qed

theorem VariantLazy_construction_defers_witness:
  "construct_at 0
     (VariantLazy_init (counted (counter_lambda :: (int, int, string) evaluator_type)))
     (Map.empty, (0, 0)) =
     ([0 \<mapsto> VariantLazy (Evaluator (counted counter_lambda))], (0, 0)) \<and>
   exec GetValue
     (VariantLazy_init (counted (counter_lambda :: (int, int, string) evaluator_type)), (0, 0)) =
     (Inr (RValue 1), VariantLazy (Value 1), (Suc 0, 1))"
proof -
  let ?f = "counter_lambda :: (int, int, string) evaluator_type"
  note t = VariantLazy_construction_defers [of ?f 0 Map.empty 0 0 GetValue]
  from t have a: "construct_at 0 (VariantLazy_init (counted ?f)) (Map.empty, (0, 0)) =
     ([0 \<mapsto> VariantLazy (Evaluator (counted ?f))], (0, 0))"
    by (elim conjE)
  from t have "is_access (GetValue :: int call) \<longrightarrow>
      exec GetValue (VariantLazy_init (counted ?f), (0, 0)) =
        (returned (fst (?f 0)),
         (case fst (?f 0) of
            Inl e \<Rightarrow> VariantLazy (Evaluator (counted ?f))
          | Inr v \<Rightarrow> VariantLazy (Value v)),
         (Suc 0, snd (?f 0)))"
    by (elim conjE)
  then have b: "exec GetValue (VariantLazy_init (counted ?f), (0, 0)) =
     (Inr (RValue 1), VariantLazy (Value 1), (Suc 0, 1))"
    by (simp add: counter_lambda_def del: exec.simps)
  from a b show ?thesis by (intro conjI)
qed


lemma delegate_cases: "delegate c = GetValue \<or> delegate c = IsEvaluated"
  by (cases c) simp_all

lemma exec_delegate_change:
  "exec (delegate c) (l, w) = (r, l', w') \<Longrightarrow>
   l' = l \<or>
   (\<exists>f v. l = VariantLazy (Evaluator f) \<and> f w = (Inr v, w') \<and>
      l' = VariantLazy (Value v) \<and> r = Inr (RValue v))"
proof (cases l)
  case (NotLazy x)
  assume "exec (delegate c) (l, w) = (r, l', w')"
  with NotLazy show ?thesis by (cases c) auto
next
  case (VariantLazy st)
  assume e: "exec (delegate c) (l, w) = (r, l', w')"
  show ?thesis
  proof (cases st)
    case (Value v)
    with VariantLazy e show ?thesis by (cases c) auto
  next
    case (Evaluator f)
    with VariantLazy e show ?thesis
      by (cases c; cases "f w"; cases "fst (f w)") auto
  qed
qed

text \<open>
  C9. Every call of the interface of a handle is a call of \<open>get_value\<close> or of
  \<open>isEvaluated\<close> on the object behind \<open>pimpl\<close>; there is none that reaches \<open>operator=\<close>.
  A call through a handle changes no other object, and the object behind the handle
  either stays as it is or goes from its producer to the value the producer returned.
  Once that object is evaluated, no sequence of calls through handles to it changes
  the store or the environment.
\<close>

theorem SharedLazy_is_read_only:
  fixes h :: "addr \<Rightarrow> ('a, 'w, 'e) LazyConcept option"
  assumes "h (pimpl p) = Some l"
  shows "shared_exec c p (h, w) = call_at (pimpl p) (delegate c) (h, w) \<and>
         ((delegate c :: 'a call) = GetValue \<or> (delegate c :: 'a call) = IsEvaluated) \<and>
         (\<exists>r l' w'. shared_exec c p (h, w) = Some (r, (h(pimpl p \<mapsto> l'), w')) \<and>
            (l' = l \<or>
             (\<exists>f v. l = VariantLazy (Evaluator f) \<and> f w = (Inr v, w') \<and>
                l' = VariantLazy (Value v) \<and> r = Inr (RValue v)))) \<and>
         (isEvaluated l \<longrightarrow>
            (\<forall>pcs. list_all (\<lambda>pc. pimpl (fst pc) = pimpl p) pcs \<longrightarrow>
               (\<exists>rs. shared_run pcs (h, w) = Some (rs, (h, w)))))"
proof (intro conjI impI allI)
  show "shared_exec c p (h, w) = call_at (pimpl p) (delegate c) (h, w)"
    by (simp add: shared_exec_def)
  show "(delegate c :: 'a call) = GetValue \<or> (delegate c :: 'a call) = IsEvaluated"
    by (rule delegate_cases)
  show "\<exists>r l' w'. shared_exec c p (h, w) = Some (r, (h(pimpl p \<mapsto> l'), w')) \<and>
            (l' = l \<or>
             (\<exists>f v. l = VariantLazy (Evaluator f) \<and> f w = (Inr v, w') \<and>
                l' = VariantLazy (Value v) \<and> r = Inr (RValue v)))"
  proof -
    obtain r l' w' where e: "exec (delegate c) (l, w) = (r, l', w')"
      by (cases "exec (delegate c) (l, w)") auto
    from assms e have "call_at (pimpl p) (delegate c) (h, w) =
        Some (r, (h(pimpl p \<mapsto> l'), w'))"
      by (rule call_at_Some)
    then have s: "shared_exec c p (h, w) = Some (r, (h(pimpl p \<mapsto> l'), w'))"
      by (simp add: shared_exec_def)
    from e have "l' = l \<or>
        (\<exists>f v. l = VariantLazy (Evaluator f) \<and> f w = (Inr v, w') \<and>
           l' = VariantLazy (Value v) \<and> r = Inr (RValue v))"
      by (rule exec_delegate_change)
    with s show ?thesis by blast
  qed
  show "\<exists>rs. shared_run pcs (h, w) = Some (rs, (h, w))"
    if "isEvaluated l" and "list_all (\<lambda>pc. pimpl (fst pc) = pimpl p) pcs" for pcs
    using assms that by (rule shared_run_evaluated)
qed


theorem SharedLazy_is_read_only_witness:
  "shared_exec SGetValue (SharedLazy 0)
     ([0 \<mapsto> VariantLazy (Value 3) :: (int, unit, string) LazyConcept], ()) =
   call_at (pimpl (SharedLazy 0)) (delegate SGetValue)
     ([0 \<mapsto> VariantLazy (Value 3) :: (int, unit, string) LazyConcept], ()) \<and>
   (\<exists>rs. shared_run [(SharedLazy 0, SDeref), (SharedLazy 0, SIsEvaluated)]
      ([0 \<mapsto> VariantLazy (Value 3) :: (int, unit, string) LazyConcept], ()) =
      Some (rs, ([0 \<mapsto> VariantLazy (Value 3) :: (int, unit, string) LazyConcept], ())))"
proof -
  let ?l = "VariantLazy (Value 3) :: (int, unit, string) LazyConcept"
  let ?h = "[0 \<mapsto> ?l]"
  let ?p = "SharedLazy 0"
  let ?pcs = "[(?p, SDeref), (?p, SIsEvaluated)]"
  have a: "?h (pimpl ?p) = Some ?l" by simp
  note t = SharedLazy_is_read_only [of ?h ?p ?l SGetValue "()", OF a]
  from t have 1: "shared_exec SGetValue ?p (?h, ()) =
      call_at (pimpl ?p) (delegate SGetValue) (?h, ())"
    by (elim conjE)
  from t have "isEvaluated ?l \<longrightarrow>
      (\<forall>pcs. list_all (\<lambda>pc. pimpl (fst pc) = pimpl ?p) pcs \<longrightarrow>
         (\<exists>rs. shared_run pcs (?h, ()) = Some (rs, (?h, ()))))"
    by (elim conjE)
  then have "\<forall>pcs. list_all (\<lambda>pc. pimpl (fst pc) = pimpl ?p) pcs \<longrightarrow>
         (\<exists>rs. shared_run pcs (?h, ()) = Some (rs, (?h, ())))"
    by simp
  then have "list_all (\<lambda>pc. pimpl (fst pc) = pimpl ?p) ?pcs \<longrightarrow>
         (\<exists>rs. shared_run ?pcs (?h, ()) = Some (rs, (?h, ())))"
    by (rule spec)
  then have 2: "\<exists>rs. shared_run ?pcs (?h, ()) = Some (rs, (?h, ()))"
    by (simp del: shared_run.simps)
  from 1 2 show ?thesis by (intro conjI)
qed

text \<open>
  C10. The copy constructor gives the new object at \<open>dst\<close> the storage of the
  \<open>VariantLazy\<close> at \<open>src\<close>, producer or value, and leaves the environment alone. Any call
  on the copy, a read or an assignment, leaves the original as it was. When the
  original was unevaluated, a read of the original and a read of the copy each invoke
  the producer: the invocation counter goes up by two, and each object caches what its
  own invocation returned.
\<close>

theorem copies_are_independent:
  fixes h :: "addr \<Rightarrow> ('a, nat \<times> 'w, 'e) LazyConcept option"
  assumes "src \<noteq> dst" and "h src = Some (VariantLazy st)"
  shows "copy_construct src dst (h, w) = Some (h(dst \<mapsto> VariantLazy st), w) \<and>
         (\<exists>r l' w'. call_at dst c (h(dst \<mapsto> VariantLazy st), w) =
                       Some (r, (h(dst \<mapsto> l'), w')) \<and>
                     (h(dst \<mapsto> l')) src = Some (VariantLazy st)) \<and>
         (\<forall>ev n w0 v w1 v' w2.
            st = Evaluator (counted ev) \<and> w = (n, w0) \<and>
            ev w0 = (Inr v, w1) \<and> ev w1 = (Inr v', w2) \<longrightarrow>
            call_at src GetValue (h(dst \<mapsto> VariantLazy st), w) =
              Some (Inr (RValue v),
                    (h(dst \<mapsto> VariantLazy st, src \<mapsto> VariantLazy (Value v)), (Suc n, w1))) \<and>
            call_at dst GetValue
              (h(dst \<mapsto> VariantLazy st, src \<mapsto> VariantLazy (Value v)), (Suc n, w1)) =
              Some (Inr (RValue v'),
                    (h(dst \<mapsto> VariantLazy (Value v'), src \<mapsto> VariantLazy (Value v)),
                     (Suc (Suc n), w2))))"
proof (intro conjI allI impI)
  show "copy_construct src dst (h, w) = Some (h(dst \<mapsto> VariantLazy st), w)"
    using assms(2) by (simp add: copy_construct_def)
next
  obtain r l' w' where e: "exec c (VariantLazy st, w) = (r, l', w')"
    by (cases "exec c (VariantLazy st, w)") auto
  have "(h(dst \<mapsto> VariantLazy st)) dst = Some (VariantLazy st)"
    by simp
  then have "call_at dst c (h(dst \<mapsto> VariantLazy st), w) =
      Some (r, ((h(dst \<mapsto> VariantLazy st))(dst \<mapsto> l'), w'))"
    using e by (rule call_at_Some)
  then have 1: "call_at dst c (h(dst \<mapsto> VariantLazy st), w) = Some (r, (h(dst \<mapsto> l'), w'))"
    by simp
  have 2: "(h(dst \<mapsto> l')) src = Some (VariantLazy st)"
    using assms by simp
  from 1 2
  show "\<exists>r l' w'. call_at dst c (h(dst \<mapsto> VariantLazy st), w) =
                       Some (r, (h(dst \<mapsto> l'), w')) \<and>
                     (h(dst \<mapsto> l')) src = Some (VariantLazy st)"
    by blast
next
  fix ev n w0 v w1 v' w2
  assume a: "st = Evaluator (counted ev) \<and> w = (n, w0) \<and>
            ev w0 = (Inr v, w1) \<and> ev w1 = (Inr v', w2)"
  then have st: "st = Evaluator (counted ev)" and w: "w = (n, w0)"
    and first: "ev w0 = (Inr v, w1)" and second: "ev w1 = (Inr v', w2)"
    by simp_all
  let ?h1 = "h(dst \<mapsto> VariantLazy st)"
  let ?h2 = "h(dst \<mapsto> VariantLazy st, src \<mapsto> VariantLazy (Value v))"
  have "?h1 src = Some (VariantLazy (Evaluator (counted ev)))"
    using assms st by simp
  moreover have "exec GetValue (VariantLazy (Evaluator (counted ev)), (n, w0)) =
      (Inr (RValue v), VariantLazy (Value v), (Suc n, w1))"
    using first by (simp add: counted_def)
  ultimately have "call_at src GetValue (?h1, (n, w0)) =
      Some (Inr (RValue v), (?h1(src \<mapsto> VariantLazy (Value v)), (Suc n, w1)))"
    by (rule call_at_Some)
  then show "call_at src GetValue (?h1, w) = Some (Inr (RValue v), (?h2, (Suc n, w1)))"
    by (simp only: w)
  have "?h2 dst = Some (VariantLazy (Evaluator (counted ev)))"
    using assms(1) st by simp
  moreover have "exec GetValue (VariantLazy (Evaluator (counted ev)), (Suc n, w1)) =
      (Inr (RValue v'), VariantLazy (Value v'), (Suc (Suc n), w2))"
    using second by (simp add: counted_def)
  ultimately have "call_at dst GetValue (?h2, (Suc n, w1)) =
      Some (Inr (RValue v'), (?h2(dst \<mapsto> VariantLazy (Value v')), (Suc (Suc n), w2)))"
    by (rule call_at_Some)
  moreover have "?h2(dst \<mapsto> VariantLazy (Value v')) =
      h(dst \<mapsto> VariantLazy (Value v'), src \<mapsto> VariantLazy (Value v))"
    using assms(1) by (simp add: fun_upd_twist)
  ultimately show "call_at dst GetValue (?h2, (Suc n, w1)) =
      Some (Inr (RValue v'),
            (h(dst \<mapsto> VariantLazy (Value v'), src \<mapsto> VariantLazy (Value v)),
             (Suc (Suc n), w2)))"
    by simp
qed


theorem copies_are_independent_witness:
  "copy_construct 0 1
     ([0 \<mapsto> VariantLazy (Evaluator (counted (counter_lambda :: (int, int, string) evaluator_type)))],
      (0, 0)) =
     Some ([0 \<mapsto> VariantLazy (Evaluator (counted (counter_lambda :: (int, int, string) evaluator_type))),
            1 \<mapsto> VariantLazy (Evaluator (counted counter_lambda))],
           (0, 0)) \<and>
   call_at 0 GetValue
     ([0 \<mapsto> VariantLazy (Evaluator (counted (counter_lambda :: (int, int, string) evaluator_type))),
       1 \<mapsto> VariantLazy (Evaluator (counted counter_lambda))],
      (0, 0)) =
     Some (Inr (RValue 1),
       ([0 \<mapsto> VariantLazy (Evaluator (counted (counter_lambda :: (int, int, string) evaluator_type))),
         1 \<mapsto> VariantLazy (Evaluator (counted counter_lambda)),
         0 \<mapsto> VariantLazy (Value 1)],
        (Suc 0, 1))) \<and>
   call_at 1 GetValue
     ([0 \<mapsto> VariantLazy (Evaluator (counted (counter_lambda :: (int, int, string) evaluator_type))),
       1 \<mapsto> VariantLazy (Evaluator (counted counter_lambda)),
       0 \<mapsto> VariantLazy (Value 1)],
      (Suc 0, 1)) =
     Some (Inr (RValue 2),
       ([0 \<mapsto> VariantLazy (Evaluator (counted (counter_lambda :: (int, int, string) evaluator_type))),
         1 \<mapsto> VariantLazy (Value 2),
         0 \<mapsto> VariantLazy (Value 1)],
        (Suc (Suc 0), 2)))"
proof -
  let ?f = "counter_lambda :: (int, int, string) evaluator_type"
  let ?h = "[0 \<mapsto> VariantLazy (Evaluator (counted ?f))]"
  have d: "(0 :: addr) \<noteq> 1" by simp
  have s: "?h 0 = Some (VariantLazy (Evaluator (counted ?f)))" by simp
  note t = copies_are_independent [of 0 1 ?h "Evaluator (counted ?f)" "(0, 0)" GetValue, OF d s]
  have p: "Evaluator (counted ?f) = Evaluator (counted ?f) \<and> (0 :: nat, 0 :: int) = (0, 0) \<and>
      ?f 0 = (Inr 1, 1) \<and> ?f 1 = (Inr 2, 2)"
    by (simp add: counter_lambda_def)
  note u = t [THEN conjunct2, THEN conjunct2, rule_format, of ?f 0 0 1 1 2 2, OF p]
  from t [THEN conjunct1] u show ?thesis
    by (elim conjE, intro conjI)
qed

end
